theory Spec2Isabelle
  imports Complex_Main
begin

section \<open>Connection session (servers.py)\<close>

text \<open>
  The module keeps one connection in three globals: \<open>_ssh_client\<close>, \<open>_is_connected\<close>
  and \<open>_connected_server_info\<close>. They are the fields of the record \<open>session\<close>. Calls
  into the SSH library are effects: every call that reaches the transport is appended to
  \<open>transport_io\<close>, and what the library answers (success or the exception it raises) is an
  argument of the operation.
\<close>

datatype host_key_policy = AutoAddPolicy

datatype ssh_client = SSHClient host_key_policy

record server_info =
  info_ip :: string
  info_username :: string
  info_connected_at :: real

datatype io_event =
    Connect string string string int
  | Close
  | ExecCommand string int

record session =
  ssh_client :: "ssh_client option"
  is_connected :: bool
  connected_server_info :: "server_info option"
  transport_io :: "io_event list"

text \<open>What \<open>client.connect\<close> does: it returns, or raises one of the three exception
  classes the source distinguishes (the text is \<open>str(e)\<close>).\<close>

datatype connect_outcome =
    ConnectReturns
  | AuthenticationException
  | SSHException string
  | OtherException string

datatype close_outcome = CloseReturns | CloseRaises string

text \<open>What \<open>exec_command\<close> and the two \<open>readlines\<close> do: the lines of both streams, or an
  exception.\<close>

datatype exec_outcome = ExecReturns "string list" "string list" | ExecRaises string

definition initial_session :: session where
  "initial_session =
     \<lparr>ssh_client = None, is_connected = False, connected_server_info = None,
      transport_io = []\<rparr>"

definition get_ssh_client :: "session \<Rightarrow> ssh_client \<times> session" where
  "get_ssh_client s =
     (case ssh_client s of
        None \<Rightarrow> (SSHClient AutoAddPolicy, s\<lparr>ssh_client := Some (SSHClient AutoAddPolicy)\<rparr>)
      | Some c \<Rightarrow> (c, s))"

definition is_connected_to_server :: "session \<Rightarrow> bool" where
  "is_connected_to_server s = is_connected s"

definition get_connected_server_info :: "session \<Rightarrow> server_info option" where
  "get_connected_server_info s = connected_server_info s"

text \<open>\<open>connect_to_server\<close>: \<open>ssh_connection_timeout\<close> is \<open>Config.SSH_CONNECTION_TIMEOUT\<close>,
  \<open>now\<close> is the value of \<open>time.time()\<close>.\<close>

definition connect_to_server ::
  "int \<Rightarrow> real \<Rightarrow> connect_outcome \<Rightarrow> string \<Rightarrow> string \<Rightarrow> string \<Rightarrow> session
     \<Rightarrow> (bool \<times> string option) \<times> session" where
  "connect_to_server ssh_connection_timeout now outcome server_ip username password s =
     (if is_connected s
      then ((False, Some ''Already connected to a server. Please disconnect first.''), s)
      else
        (let (client, s1) = get_ssh_client s;
             s2 = s1\<lparr>transport_io := transport_io s1 @
                     [Connect server_ip username password ssh_connection_timeout]\<rparr>
         in case outcome of
              ConnectReturns \<Rightarrow>
                ((True, None),
                 s2\<lparr>is_connected := True,
                    connected_server_info :=
                      Some \<lparr>info_ip = server_ip, info_username = username,
                            info_connected_at = now\<rparr>\<rparr>)
            | AuthenticationException \<Rightarrow>
                ((False, Some ''Authentication failed. Check username and password.''), s2)
            | SSHException e \<Rightarrow>
                ((False, Some (''SSH connection error: '' @ e)), s2)
            | OtherException e \<Rightarrow>
                ((False, Some (''Connection failed: '' @ e)), s2)))"

definition disconnect_from_server :: "close_outcome \<Rightarrow> session \<Rightarrow> bool \<times> session" where
  "disconnect_from_server outcome s =
     (if \<not> is_connected s then (False, s)
      else
        (case ssh_client s of
           None \<Rightarrow> (True, s\<lparr>is_connected := False, connected_server_info := None\<rparr>)
         | Some client \<Rightarrow>
             (let s1 = s\<lparr>transport_io := transport_io s @ [Close]\<rparr>
              in case outcome of
                   CloseReturns \<Rightarrow>
                     (True, s1\<lparr>ssh_client := None, is_connected := False,
                              connected_server_info := None\<rparr>)
                 | CloseRaises e \<Rightarrow>
                     (False, s1\<lparr>is_connected := False, connected_server_info := None\<rparr>))))"

definition do_command ::
  "exec_outcome \<Rightarrow> string \<Rightarrow> int \<Rightarrow> session \<Rightarrow> (string \<times> string option) \<times> session" where
  "do_command outcome command timeout s =
     (if \<not> is_connected s \<or> ssh_client s = None
      then (('''', Some ''Not connected to any server''), s)
      else
        (let s1 = s\<lparr>transport_io := transport_io s @ [ExecCommand command timeout]\<rparr>
         in case outcome of
              ExecReturns out_lines err_lines \<Rightarrow>
                (let stdout_text = concat out_lines;
                     stderr_text = concat err_lines
                 in ((stdout_text, if stderr_text \<noteq> [] then Some stderr_text else None), s1))
            | ExecRaises e \<Rightarrow>
                (('''', Some (''Command execution failed: '' @ e)), s1)))"

text \<open>A sequence of calls, each with the answer of the library to it.\<close>

datatype operation =
    OpConnect real connect_outcome string string string
  | OpDisconnect close_outcome
  | OpExecute exec_outcome string int

fun apply_operation :: "int \<Rightarrow> operation \<Rightarrow> session \<Rightarrow> session" where
  "apply_operation cfg (OpConnect now outcome server_ip username password) s =
     snd (connect_to_server cfg now outcome server_ip username password s)"
| "apply_operation cfg (OpDisconnect outcome) s = snd (disconnect_from_server outcome s)"
| "apply_operation cfg (OpExecute outcome command timeout) s =
     snd (do_command outcome command timeout s)"

fun run_operations :: "int \<Rightarrow> operation list \<Rightarrow> session \<Rightarrow> session" where
  "run_operations cfg [] s = s"
| "run_operations cfg (operation # rest) s =
     run_operations cfg rest (apply_operation cfg operation s)"

section \<open>Python strings (as used by utils.py)\<close>

text \<open>
  A Python string is a sequence of code points. Here it is a \<open>string\<close>, a list of
  \<open>char\<close>, and \<open>of_char c\<close> is the code point of \<open>c\<close>: the model covers the code points
  below 256 (ASCII and Latin-1). On them the tables below are Python's: \<open>py_isspace\<close> is
  \<open>str.isspace\<close> for one character (also what \<open>\s\<close> matches in a \<open>str\<close> pattern),
  \<open>lower_char\<close> is \<open>str.lower\<close> for one character.
\<close>

definition py_isspace :: "char \<Rightarrow> bool" where
  "py_isspace c =
     (let n = (of_char c :: nat)
      in (9 \<le> n \<and> n \<le> 13) \<or> (28 \<le> n \<and> n \<le> 32) \<or> n = 133 \<or> n = 160)"

definition lower_char :: "char \<Rightarrow> char" where
  "lower_char c =
     (let n = (of_char c :: nat)
      in if (65 \<le> n \<and> n \<le> 90) \<or> (192 \<le> n \<and> n \<le> 222 \<and> n \<noteq> 215)
         then char_of (n + 32) else c)"

definition py_lower :: "string \<Rightarrow> string" where
  "py_lower s = map lower_char s"

text \<open>\<open>s.strip()\<close>: whitespace removed at both ends.\<close>

definition py_strip :: "string \<Rightarrow> string" where
  "py_strip s = rev (dropWhile py_isspace (rev (dropWhile py_isspace s)))"

text \<open>\<open>s.split()\<close>: the maximal runs of characters that are not whitespace, in order.
  \<open>word\<close> is the run being read.\<close>

fun split_words :: "string \<Rightarrow> string \<Rightarrow> string list" where
  "split_words word [] = (if word = [] then [] else [word])"
| "split_words word (c # cs) =
     (if py_isspace c
      then (if word = [] then split_words [] cs else word # split_words [] cs)
      else split_words (word @ [c]) cs)"

definition py_split :: "string \<Rightarrow> string list" where
  "py_split s = split_words [] s"

text \<open>\<open>s.startswith(p)\<close>, \<open>needle in haystack\<close> and \<open>sep.join(xs)\<close>.\<close>

fun startswith :: "string \<Rightarrow> string \<Rightarrow> bool" where
  "startswith s [] = True"
| "startswith [] (p # ps) = False"
| "startswith (c # cs) (p # ps) = (c = p \<and> startswith cs ps)"

fun py_in :: "string \<Rightarrow> string \<Rightarrow> bool" where
  "py_in needle [] = (needle = [])"
| "py_in needle (c # cs) = (startswith (c # cs) needle \<or> py_in needle cs)"

fun py_join :: "string \<Rightarrow> string list \<Rightarrow> string" where
  "py_join sep [] = []"
| "py_join sep [x] = x"
| "py_join sep (x # y # ys) = x @ sep @ py_join sep (y # ys)"

subsection \<open>The regular expressions of \<open>validate_command\<close>\<close>

text \<open>
  The five patterns are sequences of single characters, each taken once, or under \<open>*\<close> or
  \<open>+\<close>. A character of the pattern is a literal, compared without regard to case since the
  search runs under \<open>re.IGNORECASE\<close>, or the class \<open>\s\<close>. \<open>match_here\<close> says whether the
  pattern matches at the start of the text, \<open>re_search\<close> whether it matches at some position,
  which is when \<open>re.search\<close> returns a match.
\<close>

datatype re_atom = Literal char | Whitespace

datatype re_item = Once re_atom | Star re_atom | Plus re_atom

fun atom_matches :: "re_atom \<Rightarrow> char \<Rightarrow> bool" where
  "atom_matches (Literal l) c = (lower_char c = lower_char l)"
| "atom_matches Whitespace c = py_isspace c"

fun match_here :: "re_item list \<Rightarrow> string \<Rightarrow> bool" where
  "match_here [] s = True"
| "match_here (Once a # items) [] = False"
| "match_here (Once a # items) (c # cs) = (atom_matches a c \<and> match_here items cs)"
| "match_here (Star a # items) [] = match_here items []"
| "match_here (Star a # items) (c # cs) =
     (match_here items (c # cs) \<or> (atom_matches a c \<and> match_here (Star a # items) cs))"
| "match_here (Plus a # items) [] = False"
| "match_here (Plus a # items) (c # cs) =
     (atom_matches a c \<and> match_here (Star a # items) cs)"

fun re_search :: "re_item list \<Rightarrow> string \<Rightarrow> bool" where
  "re_search pattern [] = match_here pattern []"
| "re_search pattern (c # cs) = (match_here pattern (c # cs) \<or> re_search pattern cs)"

definition literal :: "string \<Rightarrow> re_item list" where
  "literal s = map (\<lambda>c. Once (Literal c)) s"

text \<open>The list \<open>dangerous_patterns\<close> of the source, in its order:
  \<^verbatim>\<open>;\s*rm\s+-rf\<close>, \<^verbatim>\<open>&&\s*rm\s+-rf\<close>, \<^verbatim>\<open>\|\s*rm\s+-rf\<close>, \<^verbatim>\<open>>\s*/dev/\<close>,
  \<^verbatim>\<open><\s*/dev/\<close>.\<close>

definition dangerous_patterns :: "re_item list list" where
  "dangerous_patterns =
     [literal '';'' @ [Star Whitespace] @ literal ''rm'' @ [Plus Whitespace] @ literal ''-rf'',
      literal ''&&'' @ [Star Whitespace] @ literal ''rm'' @ [Plus Whitespace] @ literal ''-rf'',
      literal ''|'' @ [Star Whitespace] @ literal ''rm'' @ [Plus Whitespace] @ literal ''-rf'',
      literal ''>'' @ [Star Whitespace] @ literal ''/dev/'',
      literal ''<'' @ [Star Whitespace] @ literal ''/dev/'']"

section \<open>Command filter (utils.py)\<close>

text \<open>\<open>Config.BLOCKED_COMMANDS\<close> and \<open>Config.ALLOWED_COMMAND_PREFIXES\<close> (config.py).\<close>

definition BLOCKED_COMMANDS :: "string list" where
  "BLOCKED_COMMANDS = [''rm -rf /'', ''mkfs'', ''dd if='', ''format'', ''fdisk'']"

definition ALLOWED_COMMAND_PREFIXES :: "string list" where
  "ALLOWED_COMMAND_PREFIXES =
     [''ls'', ''cd'', ''pwd'', ''cat'', ''grep'', ''find'', ''ps'', ''top'', ''df'', ''du'',
      ''free'', ''uptime'']"

text \<open>
  \<open>validate_command\<close>. The loop over \<open>blocked_commands\<close> returns at the first entry found in
  the command, which is what \<open>find\<close> gives. \<open>allowed_prefixes\<close> is \<open>None\<close> when the argument
  is left out; the test \<open>if allowed_prefixes\<close> fails for \<open>None\<close> and for the empty list, and
  \<open>if command_parts\<close> fails when the command has no word.
\<close>

definition validate_command ::
  "string \<Rightarrow> string list \<Rightarrow> string list option \<Rightarrow> bool \<times> string option" where
  "validate_command command blocked_commands allowed_prefixes =
     (let command = py_strip command
      in case find (\<lambda>blocked. py_in (py_lower blocked) (py_lower command)) blocked_commands of
           Some blocked \<Rightarrow> (False, Some (''Command contains blocked pattern: '' @ blocked))
         | None \<Rightarrow>
             if list_ex (\<lambda>pattern. re_search pattern command) dangerous_patterns
             then (False, Some ''Command contains dangerous pattern'')
             else
               (case allowed_prefixes of
                  None \<Rightarrow> (True, None)
                | Some prefixes \<Rightarrow>
                    if prefixes = [] then (True, None)
                    else
                      (case py_split command of
                         [] \<Rightarrow> (True, None)
                       | first # rest \<Rightarrow>
                           (let first_word = py_lower first
                            in if \<not> list_ex (\<lambda>prefix. startswith first_word prefix) prefixes
                               then (False,
                                     Some (''Command must start with one of: ''
                                           @ py_join '', '' prefixes))
                               else (True, None)))))"

text \<open>\<open>sanitize_input\<close>: the substitution deletes every character of the class
  \<^verbatim>\<open>[\x00-\x1f\x7f-\x9f]\<close>.\<close>

definition is_control_char :: "char \<Rightarrow> bool" where
  "is_control_char c =
     (let n = (of_char c :: nat) in n \<le> 31 \<or> (127 \<le> n \<and> n \<le> 159))"

definition sanitize_input :: "string \<Rightarrow> string" where
  "sanitize_input text =
     (let text = filter (\<lambda>c. \<not> is_control_char c) text;
          text = (if length text > 1000 then take 1000 text else text)
      in py_strip text)"

section \<open>Server inventory (servers.py)\<close>

text \<open>
  The inventory is the file \<open>Config.SERVERS_FILE\<close>. Its state is \<open>None\<close> when the path does
  not exist and the text of the file otherwise. The functions of the source reach the file
  through \<open>open\<close>, \<open>csv.writer\<close> and \<open>csv.reader\<close> with the default dialect and the
  delimiter \<open>,\<close>; these are modelled on the characters, since the source opens the file in
  two ways: for writing with \<open>newline=''\<close>, so the characters written are the characters
  stored, and for reading without it, so the text read has passed through the translation of
  line ends.
\<close>

abbreviation CR :: char where "CR \<equiv> CHR 0x0D"

abbreviation LF :: char where "LF \<equiv> CHR 0x0A"

abbreviation DQUOTE :: char where "DQUOTE \<equiv> CHR 0x22"

abbreviation COMMA :: char where "COMMA \<equiv> CHR 0x2C"

datatype open_outcome = Opened | OpenRaises

subsection \<open>\<open>csv.writer\<close>\<close>

text \<open>
  A field is written between quotes, with each quote in it doubled, when it holds the
  delimiter, the quote character or a character of the line terminator; otherwise as it is.
  The fields are joined by the delimiter, a record that would be empty although it has a
  field is written as two quotes, and the line terminator \<open>CR LF\<close> follows.
\<close>

definition csv_field :: "string \<Rightarrow> string" where
  "csv_field field =
     (if list_ex (\<lambda>c. c = COMMA \<or> c = DQUOTE \<or> c = CR \<or> c = LF) field
      then [DQUOTE] @ concat (map (\<lambda>c. if c = DQUOTE then [DQUOTE, DQUOTE] else [c]) field)
           @ [DQUOTE]
      else field)"

definition writerow :: "string list \<Rightarrow> string" where
  "writerow row =
     (let rec = py_join [COMMA] (map csv_field row)
      in (if row \<noteq> [] \<and> rec = [] then [DQUOTE, DQUOTE] else rec) @ [CR, LF])"

definition HEADER :: "string list" where
  "HEADER = [''SERVER_IP'', ''LOGIN_USERNAME'', ''LOGIN_PASSWORD'', ''ADDED_BY'', ''DATE_ADDED'']"

subsection \<open>Reading a text file\<close>

text \<open>A file opened for reading with the default \<open>newline\<close> gives its text with every
  \<open>CR LF\<close> and every other \<open>CR\<close> replaced by \<open>LF\<close>; iterating over it gives the lines,
  each with its \<open>LF\<close>, and a last line without one when the text does not end in \<open>LF\<close>.\<close>

fun universal_newlines :: "string \<Rightarrow> string" where
  "universal_newlines [] = []"
| "universal_newlines [c] = (if c = CR then [LF] else [c])"
| "universal_newlines (c # d # cs) =
     (if c = CR then (if d = LF then LF # universal_newlines cs
                      else LF # universal_newlines (d # cs))
      else c # universal_newlines (d # cs))"

fun read_lines :: "string \<Rightarrow> string \<Rightarrow> string list" where
  "read_lines line [] = (if line = [] then [] else [line])"
| "read_lines line (c # cs) =
     (if c = LF then (line @ [c]) # read_lines [] cs else read_lines (line @ [c]) cs)"

subsection \<open>\<open>csv.reader\<close>\<close>

text \<open>
  The reader is the state machine of the csv module, for the default dialect: no escape
  character, doubled quotes, not strict. It keeps the state, the field being read and the
  fields read so far of the record. A character is \<open>Some c\<close>; \<open>None\<close> is the end of a line,
  which the reader processes after the characters of each line. Two errors are possible: a
  field that outgrows the limit of the module, and a character after a line end inside a
  line.
\<close>

datatype parser_state =
  START_RECORD | START_FIELD | IN_FIELD | IN_QUOTED_FIELD | QUOTE_IN_QUOTED_FIELD | EAT_CRNL

record reader =
  state :: parser_state
  field :: string
  record_fields :: "string list"

datatype csv_error = FieldLargerThanLimit | NewlineInUnquotedField

definition field_size_limit :: nat where
  "field_size_limit = 131072"

definition parse_reset :: reader where
  "parse_reset = \<lparr>state = START_RECORD, field = [], record_fields = []\<rparr>"

definition parse_add_char :: "reader \<Rightarrow> char \<Rightarrow> csv_error + reader" where
  "parse_add_char r c =
     (if length (field r) \<ge> field_size_limit then Inl FieldLargerThanLimit
      else Inr (r\<lparr>field := field r @ [c]\<rparr>))"

definition parse_save_field :: "reader \<Rightarrow> reader" where
  "parse_save_field r = r\<lparr>record_fields := record_fields r @ [field r], field := []\<rparr>"

definition start_field :: "reader \<Rightarrow> char option \<Rightarrow> csv_error + reader" where
  "start_field r c =
     (case c of
        None \<Rightarrow> Inr ((parse_save_field r)\<lparr>state := START_RECORD\<rparr>)
      | Some ch \<Rightarrow>
          if ch = LF \<or> ch = CR then Inr ((parse_save_field r)\<lparr>state := EAT_CRNL\<rparr>)
          else if ch = DQUOTE then Inr (r\<lparr>state := IN_QUOTED_FIELD\<rparr>)
          else if ch = COMMA then Inr ((parse_save_field r)\<lparr>state := START_FIELD\<rparr>)
          else map_sum id (\<lambda>r'. r'\<lparr>state := IN_FIELD\<rparr>) (parse_add_char r ch))"

definition parse_process_char :: "reader \<Rightarrow> char option \<Rightarrow> csv_error + reader" where
  "parse_process_char r c =
     (case state r of
        START_RECORD \<Rightarrow>
          (case c of
             None \<Rightarrow> Inr r
           | Some ch \<Rightarrow>
               if ch = LF \<or> ch = CR then Inr (r\<lparr>state := EAT_CRNL\<rparr>)
               else start_field r c)
      | START_FIELD \<Rightarrow> start_field r c
      | IN_FIELD \<Rightarrow>
          (case c of
             None \<Rightarrow> Inr ((parse_save_field r)\<lparr>state := START_RECORD\<rparr>)
           | Some ch \<Rightarrow>
               if ch = LF \<or> ch = CR then Inr ((parse_save_field r)\<lparr>state := EAT_CRNL\<rparr>)
               else if ch = COMMA then Inr ((parse_save_field r)\<lparr>state := START_FIELD\<rparr>)
               else parse_add_char r ch)
      | IN_QUOTED_FIELD \<Rightarrow>
          (case c of
             None \<Rightarrow> Inr r
           | Some ch \<Rightarrow>
               if ch = DQUOTE then Inr (r\<lparr>state := QUOTE_IN_QUOTED_FIELD\<rparr>)
               else parse_add_char r ch)
      | QUOTE_IN_QUOTED_FIELD \<Rightarrow>
          (case c of
             None \<Rightarrow> Inr ((parse_save_field r)\<lparr>state := START_RECORD\<rparr>)
           | Some ch \<Rightarrow>
               if ch = DQUOTE
               then map_sum id (\<lambda>r'. r'\<lparr>state := IN_QUOTED_FIELD\<rparr>) (parse_add_char r ch)
               else if ch = COMMA then Inr ((parse_save_field r)\<lparr>state := START_FIELD\<rparr>)
               else if ch = LF \<or> ch = CR
               then Inr ((parse_save_field r)\<lparr>state := EAT_CRNL\<rparr>)
               else map_sum id (\<lambda>r'. r'\<lparr>state := IN_FIELD\<rparr>) (parse_add_char r ch))
      | EAT_CRNL \<Rightarrow>
          (case c of
             None \<Rightarrow> Inr (r\<lparr>state := START_RECORD\<rparr>)
           | Some ch \<Rightarrow>
               if ch = LF \<or> ch = CR then Inr r else Inl NewlineInUnquotedField))"

text \<open>The characters of one line, then the end of the line.\<close>

fun parse_line :: "reader \<Rightarrow> string \<Rightarrow> csv_error + reader" where
  "parse_line r [] = parse_process_char r None"
| "parse_line r (c # cs) =
     (case parse_process_char r (Some c) of
        Inl e \<Rightarrow> Inl e
      | Inr r' \<Rightarrow> parse_line r' cs)"

text \<open>
  The rows the reader yields from the lines, and the error that ended the iteration if one
  did. A record is complete when the state after a line is \<open>START_RECORD\<close>; otherwise the
  next line continues it. When the lines end inside a record, the reader yields what it has.
\<close>

fun csv_reader :: "reader \<Rightarrow> string list \<Rightarrow> string list list \<times> csv_error option" where
  "csv_reader r [] =
     (if field r \<noteq> [] \<or> state r = IN_QUOTED_FIELD
      then ([record_fields (parse_save_field r)], None)
      else ([], None))"
| "csv_reader r (line # lines) =
     (case parse_line r line of
        Inl e \<Rightarrow> ([], Some e)
      | Inr r' \<Rightarrow>
          if state r' \<noteq> START_RECORD then csv_reader r' lines
          else (let (rows, e) = csv_reader parse_reset lines in (record_fields r' # rows, e)))"

subsection \<open>The functions of the inventory\<close>

text \<open>
  \<open>get_servers_data\<close>: no file, or an exception on the way, gives the rows collected so
  far. The loop keeps a row when it is not the first one and has at least three fields.
\<close>

definition get_servers_data :: "open_outcome \<Rightarrow> string option \<Rightarrow> string list list" where
  "get_servers_data opened file =
     (case file of
        None \<Rightarrow> []
      | Some content \<Rightarrow>
          (case opened of
             OpenRaises \<Rightarrow> []
           | Opened \<Rightarrow>
               (let (rows, e) = csv_reader parse_reset (read_lines [] (universal_newlines content))
                in map snd
                     (filter (\<lambda>(line_count, row). line_count > 0 \<and> length row \<ge> 3)
                        (enumerate 0 rows)))))"

definition add_server ::
  "open_outcome \<Rightarrow> string \<Rightarrow> string \<Rightarrow> string \<Rightarrow> string \<Rightarrow> string \<Rightarrow> string option
     \<Rightarrow> bool \<times> string option" where
  "add_server opened server_ip username password sender timestamp file =
     (let file_exists = (file \<noteq> None)
      in case opened of
           OpenRaises \<Rightarrow> (False, file)
         | Opened \<Rightarrow>
             (let content = (case file of None \<Rightarrow> [] | Some old \<Rightarrow> old);
                  content = (if \<not> file_exists then content @ writerow HEADER else content);
                  content = content @ writerow [server_ip, username, password, sender, timestamp]
              in (True, Some content)))"

text \<open>\<open>del_server\<close>: \<open>opened_read\<close> is the outcome of the \<open>open\<close> inside
  \<open>get_servers_data\<close>, \<open>opened_write\<close> of the one that rewrites the file.\<close>

definition del_server ::
  "open_outcome \<Rightarrow> open_outcome \<Rightarrow> int \<Rightarrow> string option \<Rightarrow> bool \<times> string option" where
  "del_server opened_read opened_write server_number file =
     (if file = None then (False, file)
      else
        (let servers = get_servers_data opened_read file
         in if server_number < 1 \<or> server_number > int (length servers) then (False, file)
            else
              (let servers = take (nat (server_number - 1)) servers
                               @ drop (nat server_number) servers
               in case opened_write of
                    OpenRaises \<Rightarrow> (False, file)
                  | Opened \<Rightarrow>
                      (True, Some (writerow HEADER @ concat (map writerow servers))))))"

subsection \<open>Files written by the inventory\<close>

text \<open>
  Notions used to state what the reader makes of what the writer wrote. \<open>parse_chars\<close> feeds
  the reader the characters of a part of a line. \<open>row_text\<close> is the text of a row before its
  line terminator. A \<open>written_row\<close> has at least two fields, none with a carriage return or
  longer than the limit of the reader; a \<open>written_file\<close> is no file, or the rows written one
  after the other, the header first: the files that \<open>initialize_files\<close>, \<open>add_server\<close> and
  \<open>del_server\<close> produce from such fields. \<open>field_read\<close> describes the reader after the last
  character of a field.
\<close>

fun parse_chars :: "reader \<Rightarrow> string \<Rightarrow> csv_error + reader" where
  "parse_chars r [] = Inr r"
| "parse_chars r (c # cs) =
     (case parse_process_char r (Some c) of
        Inl e \<Rightarrow> Inl e
      | Inr r' \<Rightarrow> parse_chars r' cs)"

definition plain_char :: "char \<Rightarrow> bool" where
  "plain_char c = (c \<noteq> COMMA \<and> c \<noteq> DQUOTE \<and> c \<noteq> CR \<and> c \<noteq> LF)"

definition escape_quotes :: "string \<Rightarrow> string" where
  "escape_quotes f = concat (map (\<lambda>c. if c = DQUOTE then [DQUOTE, DQUOTE] else [c]) f)"

definition field_read :: "reader \<Rightarrow> string \<Rightarrow> string list \<Rightarrow> bool" where
  "field_read r f fs =
     (field r = f \<and> record_fields r = fs
      \<and> (state r = IN_FIELD \<or> state r = QUOTE_IN_QUOTED_FIELD
         \<or> (state r = START_FIELD \<and> f = [])))"

definition row_text :: "string list \<Rightarrow> string" where
  "row_text row = py_join [COMMA] (map csv_field row)"

definition written_row :: "string list \<Rightarrow> bool" where
  "written_row row =
     (length row \<ge> 2 \<and> (\<forall>x \<in> set row. CR \<notin> set x \<and> length x \<le> field_size_limit))"

definition written_file :: "string option \<Rightarrow> bool" where
  "written_file file =
     (file = None
      \<or> (\<exists>rows. rows \<noteq> [] \<and> (\<forall>row \<in> set rows. written_row row)
                 \<and> file = Some (concat (map writerow rows))))"

section \<open>Properties of the connection session\<close>

lemma connect_guard:
  "is_connected s \<Longrightarrow>
     connect_to_server cfg now outcome server_ip username password s =
       ((False, Some ''Already connected to a server. Please disconnect first.''), s)"
  by (simp add: connect_to_server_def)

text \<open>In every session reached from the initial one, the connected flag is set exactly when
  a server info is stored, and then a client is stored too.\<close>

lemma apply_operation_consistent:
  assumes "(is_connected s \<longrightarrow> ssh_client s \<noteq> None \<and> connected_server_info s \<noteq> None)
           \<and> (\<not> is_connected s \<longrightarrow> connected_server_info s = None)"
  shows "(is_connected (apply_operation cfg operation s) \<longrightarrow>
            ssh_client (apply_operation cfg operation s) \<noteq> None
            \<and> connected_server_info (apply_operation cfg operation s) \<noteq> None)
         \<and> (\<not> is_connected (apply_operation cfg operation s) \<longrightarrow>
              connected_server_info (apply_operation cfg operation s) = None)"
proof (cases operation)
  case (OpConnect now outcome server_ip username password)
  with assms show ?thesis
    by (cases outcome)
       (auto simp add: connect_to_server_def get_ssh_client_def split: option.split)
next
  case (OpDisconnect outcome)
  with assms show ?thesis
    by (cases outcome)
       (auto simp add: disconnect_from_server_def Let_def split: option.split)
next
  case (OpExecute outcome command timeout)
  with assms show ?thesis
    by (cases outcome) (auto simp add: do_command_def Let_def)
qed

lemma run_operations_consistent:
  assumes "(is_connected s \<longrightarrow> ssh_client s \<noteq> None \<and> connected_server_info s \<noteq> None)
           \<and> (\<not> is_connected s \<longrightarrow> connected_server_info s = None)"
  shows "(is_connected (run_operations cfg ops s) \<longrightarrow>
            ssh_client (run_operations cfg ops s) \<noteq> None
            \<and> connected_server_info (run_operations cfg ops s) \<noteq> None)
         \<and> (\<not> is_connected (run_operations cfg ops s) \<longrightarrow>
              connected_server_info (run_operations cfg ops s) = None)"
  using assms
proof (induction ops arbitrary: s)
  case Nil
  then show ?case by simp
next
  case (Cons operation ops)
  from Cons.IH [OF apply_operation_consistent [OF Cons.prems]] show ?case by simp
qed

lemma reachable_session_consistent:
  "(is_connected (run_operations cfg ops initial_session) \<longrightarrow>
      ssh_client (run_operations cfg ops initial_session) \<noteq> None
      \<and> connected_server_info (run_operations cfg ops initial_session) \<noteq> None)
   \<and> (\<not> is_connected (run_operations cfg ops initial_session) \<longrightarrow>
        connected_server_info (run_operations cfg ops initial_session) = None)"
  by (rule run_operations_consistent) (simp add: initial_session_def)


text \<open>
  C2. For every command and timeout, \<open>do_command\<close> on a session that is not connected, or
  whose client handle is absent, returns the empty output with the message
  \<open>Not connected to any server\<close>. The result is an ordinary value, the session is the one
  it found, and no call reached the transport.
\<close>

theorem do_command_not_connected:
  assumes "\<not> is_connected s \<or> ssh_client s = None"
  shows "do_command outcome command timeout s
           = (('''', Some ''Not connected to any server''), s)"
  using assms by (auto simp add: do_command_def)

theorem do_command_not_connected_witness:
  "\<not> is_connected initial_session
   \<and> ssh_client initial_session = None
   \<and> do_command (ExecReturns [''x''] []) ''ls -la'' 30 initial_session
       = (('''', Some ''Not connected to any server''), initial_session)"
proof -
  have idle: "\<not> is_connected initial_session \<or> ssh_client initial_session = None"
    by (simp add: initial_session_def)
  have fields: "\<not> is_connected initial_session" "ssh_client initial_session = None"
    by (simp_all add: initial_session_def)
  from do_command_not_connected [OF idle, of "ExecReturns [''x''] []" "''ls -la''" 30]
  show ?thesis using fields by simp
qed

lemma disconnect_idle:
  "\<not> is_connected s \<Longrightarrow> disconnect_from_server outcome s = (False, s)"
  by (simp add: disconnect_from_server_def)

lemma disconnect_clears_flags:
  "\<not> is_connected (snd (disconnect_from_server outcome s))
   \<and> (is_connected s \<longrightarrow> connected_server_info (snd (disconnect_from_server outcome s)) = None)"
  by (simp add: disconnect_from_server_def Let_def split: option.split close_outcome.split)

lemma disconnect_close_returns:
  "is_connected s \<Longrightarrow>
     ssh_client (snd (disconnect_from_server CloseReturns s)) = None
     \<and> fst (disconnect_from_server CloseReturns s)"
  by (simp add: disconnect_from_server_def split: option.split)

text \<open>
  C3. Disconnecting a session reached by one successful connect, when \<open>close\<close> raises:
  the call returns \<open>False\<close>, the connected flag and the server info are cleared, and the
  client handle is still stored in the session. Only the path on which \<open>close\<close> returns
  drops the handle.
\<close>

theorem disconnect_close_raises_keeps_client:
  "disconnect_from_server (CloseRaises ''socket error'')
     (run_operations 5 [OpConnect 100 ConnectReturns ''10.0.0.5'' ''bob'' ''pw''] initial_session)
   = (False,
      \<lparr>ssh_client = Some (SSHClient AutoAddPolicy), is_connected = False,
       connected_server_info = None,
       transport_io = [Connect ''10.0.0.5'' ''bob'' ''pw'' 5, Close]\<rparr>)"
  by (simp add: disconnect_from_server_def connect_to_server_def get_ssh_client_def
      initial_session_def)

text \<open>
  C4. A connect call on a session that is not connected, when the library raises (an
  authentication failure, an SSH error or any other exception), returns failure with a
  message that is not empty; the session is still not connected and its server info is what
  it was, so none is recorded. An execute call on a connected session, when the library
  raises, returns the empty output with an error message; the connected flag, the client
  handle and the server info are what they were.
\<close>

theorem failure_leaves_connection_state:
  "(\<not> is_connected s \<and> outcome \<noteq> ConnectReturns \<longrightarrow>
      (\<exists>msg. msg \<noteq> [] \<and>
         fst (connect_to_server cfg now outcome server_ip username password s)
           = (False, Some msg))
      \<and> \<not> is_connected (snd (connect_to_server cfg now outcome server_ip username password s))
      \<and> connected_server_info
           (snd (connect_to_server cfg now outcome server_ip username password s))
         = connected_server_info s)
   \<and> (is_connected s \<and> ssh_client s \<noteq> None \<longrightarrow>
        fst (do_command (ExecRaises e) command timeout s)
          = ('''', Some (''Command execution failed: '' @ e))
        \<and> is_connected (snd (do_command (ExecRaises e) command timeout s))
        \<and> ssh_client (snd (do_command (ExecRaises e) command timeout s)) = ssh_client s
        \<and> connected_server_info (snd (do_command (ExecRaises e) command timeout s))
           = connected_server_info s)"
proof (intro conjI impI)
  assume idle: "\<not> is_connected s \<and> outcome \<noteq> ConnectReturns"
  then show "\<exists>msg. msg \<noteq> [] \<and>
         fst (connect_to_server cfg now outcome server_ip username password s)
           = (False, Some msg)"
    by (cases outcome) (simp_all add: connect_to_server_def get_ssh_client_def split: option.split)
  from idle show "\<not> is_connected
      (snd (connect_to_server cfg now outcome server_ip username password s))"
    by (cases outcome) (simp_all add: connect_to_server_def get_ssh_client_def split: option.split)
  from idle show "connected_server_info
           (snd (connect_to_server cfg now outcome server_ip username password s))
         = connected_server_info s"
    by (cases outcome) (simp_all add: connect_to_server_def get_ssh_client_def split: option.split)
next
  assume conn: "is_connected s \<and> ssh_client s \<noteq> None"
  then show "fst (do_command (ExecRaises e) command timeout s)
          = ('''', Some (''Command execution failed: '' @ e))"
    by (simp add: do_command_def)
  from conn show "is_connected (snd (do_command (ExecRaises e) command timeout s))"
    by (simp add: do_command_def)
  from conn show "ssh_client (snd (do_command (ExecRaises e) command timeout s)) = ssh_client s"
    by (simp add: do_command_def)
  from conn show "connected_server_info (snd (do_command (ExecRaises e) command timeout s))
           = connected_server_info s"
    by (simp add: do_command_def)
qed

theorem failure_leaves_connection_state_witness:
  "(\<not> is_connected initial_session \<and> AuthenticationException \<noteq> ConnectReturns)
   \<and> \<not> is_connected
        (snd (connect_to_server 5 100 AuthenticationException ''10.0.0.5'' ''bob'' ''bad''
           initial_session))
   \<and> connected_server_info
        (snd (connect_to_server 5 100 AuthenticationException ''10.0.0.5'' ''bob'' ''bad''
           initial_session)) = None
   \<and> (is_connected
         (run_operations 5 [OpConnect 100 ConnectReturns ''10.0.0.5'' ''bob'' ''pw'']
            initial_session)
       \<and> ssh_client
           (run_operations 5 [OpConnect 100 ConnectReturns ''10.0.0.5'' ''bob'' ''pw'']
              initial_session) \<noteq> None)
   \<and> fst (do_command (ExecRaises ''timed out'') ''ls'' 10
        (run_operations 5 [OpConnect 100 ConnectReturns ''10.0.0.5'' ''bob'' ''pw'']
           initial_session))
     = ('''', Some ''Command execution failed: timed out'')
   \<and> is_connected
        (snd (do_command (ExecRaises ''timed out'') ''ls'' 10
           (run_operations 5 [OpConnect 100 ConnectReturns ''10.0.0.5'' ''bob'' ''pw'']
              initial_session)))"
proof -
  have idle: "\<not> is_connected initial_session \<and> AuthenticationException \<noteq> ConnectReturns"
    by (simp add: initial_session_def)
  have no_info: "connected_server_info initial_session = None"
    by (simp add: initial_session_def)
  have conn: "is_connected
         (run_operations 5 [OpConnect 100 ConnectReturns ''10.0.0.5'' ''bob'' ''pw'']
            initial_session)
       \<and> ssh_client
           (run_operations 5 [OpConnect 100 ConnectReturns ''10.0.0.5'' ''bob'' ''pw'']
              initial_session) \<noteq> None"
    by (simp add: connect_to_server_def get_ssh_client_def initial_session_def)
  note a = failure_leaves_connection_state
    [where s = initial_session and outcome = AuthenticationException and cfg = 5 and now = 100
       and server_ip = "''10.0.0.5''" and username = "''bob''" and password = "''bad''",
     THEN conjunct1, rule_format, OF idle]
  note b = failure_leaves_connection_state
    [where s = "run_operations 5 [OpConnect 100 ConnectReturns ''10.0.0.5'' ''bob'' ''pw'']
                  initial_session"
       and e = "''timed out''" and command = "''ls''" and timeout = 10,
     THEN conjunct2, rule_format, OF conn]
  from a b idle conn no_info show ?thesis by simp
qed

section \<open>Properties of the command filter\<close>

subsection \<open>Stripping\<close>

lemma set_py_strip: "set (py_strip s) \<subseteq> set s"
proof -
  have "set (py_strip s) \<subseteq> set (rev (dropWhile py_isspace s))"
    unfolding py_strip_def by (auto dest: set_dropWhileD)
  also have "\<dots> \<subseteq> set s"
    by (auto dest: set_dropWhileD)
  finally show ?thesis .
qed

lemma length_py_strip: "length (py_strip s) \<le> length s"
proof -
  have "length (dropWhile py_isspace (rev (dropWhile py_isspace s)))
          \<le> length (rev (dropWhile py_isspace s))"
    by (rule length_dropWhile_le)
  also have "\<dots> = length (dropWhile py_isspace s)" by simp
  also have "\<dots> \<le> length s" by (rule length_dropWhile_le)
  finally show ?thesis by (simp add: py_strip_def)
qed

lemma py_strip_no_leading: "py_strip s = c # cs \<Longrightarrow> \<not> py_isspace c"
proof -
  assume eq: "py_strip s = c # cs"
  define t where "t = dropWhile py_isspace s"
  define u where "u = dropWhile py_isspace (rev t)"
  have su: "py_strip s = rev u" by (simp add: py_strip_def t_def u_def)
  with eq have "u \<noteq> []" by auto
  then have "rev t \<noteq> []" unfolding u_def by auto
  then have "t \<noteq> []" by simp
  then have hd_t: "\<not> py_isspace (hd t)" unfolding t_def by (rule hd_dropWhile)
  obtain pre where "rev t = pre @ u"
    unfolding u_def by (metis takeWhile_dropWhile_id)
  with \<open>u \<noteq> []\<close> have "last (rev t) = last u" by simp
  moreover have "last (rev t) = hd t" using \<open>t \<noteq> []\<close> by (simp add: last_rev)
  moreover have "hd (rev u) = last u" using \<open>u \<noteq> []\<close> by (simp add: hd_rev)
  ultimately have "hd (py_strip s) = hd t" using su by simp
  with eq hd_t show ?thesis by simp
qed

lemma py_strip_no_trailing: "py_strip s = cs @ [c] \<Longrightarrow> \<not> py_isspace c"
proof -
  assume eq: "py_strip s = cs @ [c]"
  define u where "u = dropWhile py_isspace (rev (dropWhile py_isspace s))"
  have su: "py_strip s = rev u" by (simp add: py_strip_def u_def)
  with eq have "rev (rev u) = rev (cs @ [c])" by simp
  then have "u = c # rev cs" by simp
  then have "u \<noteq> []" "hd u = c" by auto
  moreover have "\<not> py_isspace (hd u)" using \<open>u \<noteq> []\<close> unfolding u_def by (rule hd_dropWhile)
  ultimately show ?thesis by simp
qed

lemma py_strip_fixed:
  assumes "\<And>c cs. s = c # cs \<Longrightarrow> \<not> py_isspace c"
    and "\<And>c cs. s = cs @ [c] \<Longrightarrow> \<not> py_isspace c"
  shows "py_strip s = s"
proof (cases s)
  case Nil
  then show ?thesis by (simp add: py_strip_def)
next
  case (Cons a list)
  with assms(1) have a: "dropWhile py_isspace s = s" by simp
  from Cons obtain b butl where sn: "s = butl @ [b]"
    by (metis list.distinct(1) rev_exhaust)
  with assms(2) have "\<not> py_isspace b" by simp
  with sn have "dropWhile py_isspace (rev s) = rev s" by simp
  with a show ?thesis by (simp add: py_strip_def)
qed

lemma py_strip_idem: "py_strip (py_strip s) = py_strip s"
  by (rule py_strip_fixed) (auto dest: py_strip_no_leading py_strip_no_trailing)

subsection \<open>\<open>sanitize_input\<close>\<close>

lemma sanitize_input_eq:
  "sanitize_input x =
     py_strip (if length (filter (\<lambda>c. \<not> is_control_char c) x) > 1000
               then take 1000 (filter (\<lambda>c. \<not> is_control_char c) x)
               else filter (\<lambda>c. \<not> is_control_char c) x)"
  by (simp add: sanitize_input_def Let_def)

lemma sanitize_no_control: "c \<in> set (sanitize_input x) \<Longrightarrow> \<not> is_control_char c"
proof -
  define z where "z = (if length (filter (\<lambda>c. \<not> is_control_char c) x) > 1000
               then take 1000 (filter (\<lambda>c. \<not> is_control_char c) x)
               else filter (\<lambda>c. \<not> is_control_char c) x)"
  assume "c \<in> set (sanitize_input x)"
  then have "c \<in> set (py_strip z)" by (simp only: sanitize_input_eq z_def)
  then have "c \<in> set z" using set_py_strip by blast
  then have "c \<in> set (filter (\<lambda>c. \<not> is_control_char c) x)"
    unfolding z_def by (auto dest: in_set_takeD split: if_splits)
  then show ?thesis by simp
qed

lemma sanitize_length: "length (sanitize_input x) \<le> 1000"
proof -
  have "length (if length (filter (\<lambda>c. \<not> is_control_char c) x) > 1000
                     then take 1000 (filter (\<lambda>c. \<not> is_control_char c) x)
                     else filter (\<lambda>c. \<not> is_control_char c) x) \<le> 1000"
    by simp
  then show ?thesis
    unfolding sanitize_input_eq by (rule order_trans [OF length_py_strip])
qed

lemma sanitize_idem: "sanitize_input (sanitize_input x) = sanitize_input x"
proof -
  let ?y = "sanitize_input x"
  have f: "filter (\<lambda>c. \<not> is_control_char c) ?y = ?y"
    by (rule filter_True) (simp add: sanitize_no_control)
  have l: "\<not> length ?y > 1000" using sanitize_length [of x] by simp
  have s: "py_strip ?y = ?y"
    by (simp only: sanitize_input_eq py_strip_idem)
  have "sanitize_input ?y = py_strip ?y"
    unfolding sanitize_input_def [of ?y] Let_def f using l by simp
  with s show ?thesis by simp
qed

text \<open>
  C7. For every string \<open>x\<close>, sanitizing twice gives what sanitizing once gives; the result
  has at most 1000 characters; and no character of the result is a control character: its
  code point is neither in the C0 range (0 to 31), nor 127, nor in the C1 range (128 to 159).
\<close>

theorem sanitize_input_idempotent_bounded:
  "sanitize_input (sanitize_input x) = sanitize_input x
   \<and> length (sanitize_input x) \<le> 1000
   \<and> (\<forall>c \<in> set (sanitize_input x).
         \<not> is_control_char c
         \<and> \<not> (of_char c :: nat) \<le> 31
         \<and> \<not> (127 \<le> (of_char c :: nat) \<and> (of_char c :: nat) \<le> 159))"
proof (intro conjI ballI)
  show "sanitize_input (sanitize_input x) = sanitize_input x" by (rule sanitize_idem)
  show "length (sanitize_input x) \<le> 1000" by (rule sanitize_length)
next
  fix c assume "c \<in> set (sanitize_input x)"
  then have nc: "\<not> is_control_char c" by (rule sanitize_no_control)
  then show "\<not> is_control_char c" .
  from nc show "\<not> (of_char c :: nat) \<le> 31" by (simp add: is_control_char_def Let_def)
  from nc show "\<not> (127 \<le> (of_char c :: nat) \<and> (of_char c :: nat) \<le> 159)"
    by (simp add: is_control_char_def Let_def)
qed

lemma sanitize_example:
  "sanitize_input [CHR 0x07, CHR '' '', CHR ''l'', CHR 0x1B, CHR ''s'', CHR 0x85, CHR '' ''] = ''ls''"
  by code_simp

theorem sanitize_input_idempotent_bounded_witness:
  "CHR ''l'' \<in> set (sanitize_input
       [CHR 0x07, CHR '' '', CHR ''l'', CHR 0x1B, CHR ''s'', CHR 0x85, CHR '' ''])
   \<and> sanitize_input (sanitize_input
       [CHR 0x07, CHR '' '', CHR ''l'', CHR 0x1B, CHR ''s'', CHR 0x85, CHR '' ''])
     = ''ls''
   \<and> \<not> is_control_char CHR ''l''"
proof -
  have m: "CHR ''l'' \<in> set (sanitize_input
       [CHR 0x07, CHR '' '', CHR ''l'', CHR 0x1B, CHR ''s'', CHR 0x85, CHR '' ''])"
    by (simp add: sanitize_example)
  note t = sanitize_input_idempotent_bounded
    [of "[CHR 0x07, CHR '' '', CHR ''l'', CHR 0x1B, CHR ''s'', CHR 0x85, CHR '' '']"]
  from t have i: "sanitize_input (sanitize_input
       [CHR 0x07, CHR '' '', CHR ''l'', CHR 0x1B, CHR ''s'', CHR 0x85, CHR '' ''])
     = sanitize_input [CHR 0x07, CHR '' '', CHR ''l'', CHR 0x1B, CHR ''s'', CHR 0x85, CHR '' '']"
    by (rule conjunct1)
  from t m have "\<not> is_control_char CHR ''l''" by blast
  with m i show ?thesis by (simp only: sanitize_example simp_thms)
qed

text \<open>
  C10. For every string, the result of \<open>sanitize_input\<close> neither begins nor ends with a
  whitespace character: after deleting control characters and truncating, the function
  strips. So \<open>sanitize_input\<close> of \<open>ls\<close> between two spaces is \<open>ls\<close>.
\<close>

theorem sanitize_input_stripped:
  "\<not> (\<exists>c cs. sanitize_input x = c # cs \<and> py_isspace c)
   \<and> \<not> (\<exists>c cs. sanitize_input x = cs @ [c] \<and> py_isspace c)
   \<and> sanitize_input '' ls '' = ''ls''"
proof (intro conjI)
  show "\<not> (\<exists>c cs. sanitize_input x = c # cs \<and> py_isspace c)"
    unfolding sanitize_input_eq by (auto dest: py_strip_no_leading)
  show "\<not> (\<exists>c cs. sanitize_input x = cs @ [c] \<and> py_isspace c)"
    unfolding sanitize_input_eq by (auto dest: py_strip_no_trailing)
  show "sanitize_input '' ls '' = ''ls''" by code_simp
qed

subsection \<open>\<open>validate_command\<close>\<close>

lemma lower_char_idem: "lower_char (lower_char c) = lower_char c"
  by (auto simp add: lower_char_def Let_def)

lemma startswith_lowered:
  "startswith s p \<Longrightarrow> \<forall>c \<in> set s. lower_char c = c \<Longrightarrow> py_lower p = p"
  by (induction s p rule: startswith.induct) (auto simp add: py_lower_def)

lemma startswith_py_lower:
  "startswith (py_lower w) p \<Longrightarrow> startswith (py_lower w) (py_lower p)"
proof -
  assume a: "startswith (py_lower w) p"
  have "\<forall>c \<in> set (py_lower w). lower_char c = c"
    by (auto simp add: py_lower_def lower_char_idem)
  with a have "py_lower p = p" by (rule startswith_lowered)
  with a show ?thesis by simp
qed

lemma validate_command_blocked:
  "find (\<lambda>blocked. py_in (py_lower blocked) (py_lower (py_strip command))) blocked_commands
     = Some b \<Longrightarrow>
   validate_command command blocked_commands allowed_prefixes
     = (False, Some (''Command contains blocked pattern: '' @ b))"
  by (simp add: validate_command_def Let_def)

lemma validate_command_dangerous:
  "find (\<lambda>blocked. py_in (py_lower blocked) (py_lower (py_strip command))) blocked_commands
     = None \<Longrightarrow>
   list_ex (\<lambda>pattern. re_search pattern (py_strip command)) dangerous_patterns \<Longrightarrow>
   validate_command command blocked_commands allowed_prefixes
     = (False, Some ''Command contains dangerous pattern'')"
  by (simp add: validate_command_def Let_def)

lemma validate_command_allow_list:
  "find (\<lambda>blocked. py_in (py_lower blocked) (py_lower (py_strip command))) blocked_commands
     = None \<Longrightarrow>
   \<not> list_ex (\<lambda>pattern. re_search pattern (py_strip command)) dangerous_patterns \<Longrightarrow>
   prefixes \<noteq> [] \<Longrightarrow>
   py_split (py_strip command) = first # rest \<Longrightarrow>
   validate_command command blocked_commands (Some prefixes)
     = (if list_ex (\<lambda>prefix. startswith (py_lower first) prefix) prefixes
        then (True, None)
        else (False, Some (''Command must start with one of: '' @ py_join '', '' prefixes)))"
  by (simp add: validate_command_def Let_def)

lemma command_stripped: "py_strip ''foo; rm -rf /tmp'' = ''foo; rm -rf /tmp''"
  by code_simp

lemma command_dangerous:
  "list_ex (\<lambda>pattern. re_search pattern ''foo; rm -rf /tmp'') dangerous_patterns"
  by code_simp

text \<open>
  C5, as stated, fails. With the blocked list of config.py the command
  \<open>foo; rm -rf /tmp\<close> is rejected by the blocklist rule, which runs first: the entry
  \<open>rm -rf /\<close> occurs in the command, and the reason names that entry. The reason is not
  the generic one.
\<close>

theorem chained_rm_blocked_by_configured_list:
  "validate_command ''foo; rm -rf /tmp'' BLOCKED_COMMANDS None
     = (False, Some ''Command contains blocked pattern: rm -rf /'')"
  by code_simp

text \<open>
  C5, amended. The command \<open>foo; rm -rf /tmp\<close> is rejected whatever the blocked list and
  the allow-list are. When no entry of the blocked list occurs in it (compared without regard
  to case), the rejection is the one of the dangerous-pattern rule, with the reason
  \<open>Command contains dangerous pattern\<close>.
\<close>

theorem chained_rm_rejected:
  "\<not> fst (validate_command ''foo; rm -rf /tmp'' blocked allowed)
   \<and> ((\<forall>b \<in> set blocked. \<not> py_in (py_lower b) (py_lower ''foo; rm -rf /tmp'')) \<longrightarrow>
        validate_command ''foo; rm -rf /tmp'' blocked allowed
          = (False, Some ''Command contains dangerous pattern''))"
proof -
  let ?hit = "\<lambda>b. py_in (py_lower b) (py_lower (py_strip ''foo; rm -rf /tmp''))"
  have dangerous:
    "list_ex (\<lambda>pattern. re_search pattern (py_strip ''foo; rm -rf /tmp'')) dangerous_patterns"
    by (simp only: command_stripped command_dangerous)
  have rejected: "\<not> fst (validate_command ''foo; rm -rf /tmp'' blocked allowed)"
  proof (cases "find ?hit blocked")
    case None
    from validate_command_dangerous [OF None dangerous] show ?thesis by simp
  next
    case (Some b)
    from validate_command_blocked [OF Some] show ?thesis by simp
  qed
  have generic: "validate_command ''foo; rm -rf /tmp'' blocked allowed
          = (False, Some ''Command contains dangerous pattern'')"
    if "\<forall>b \<in> set blocked. \<not> py_in (py_lower b) (py_lower ''foo; rm -rf /tmp'')"
  proof -
    from that have "find ?hit blocked = None"
      by (simp only: find_None_iff command_stripped) blast
    from validate_command_dangerous [OF this dangerous] show ?thesis .
  qed
  from rejected generic show ?thesis by blast
qed

theorem chained_rm_rejected_witness:
  "\<not> py_in (py_lower ''mkfs'') (py_lower ''foo; rm -rf /tmp'')
   \<and> \<not> py_in (py_lower ''fdisk'') (py_lower ''foo; rm -rf /tmp'')
   \<and> validate_command ''foo; rm -rf /tmp'' [''mkfs'', ''fdisk''] None
       = (False, Some ''Command contains dangerous pattern'')"
proof -
  have a: "\<not> py_in (py_lower ''mkfs'') (py_lower ''foo; rm -rf /tmp'')" by code_simp
  have b: "\<not> py_in (py_lower ''fdisk'') (py_lower ''foo; rm -rf /tmp'')" by code_simp
  from a b have
    "\<forall>b \<in> set [''mkfs'', ''fdisk'']. \<not> py_in (py_lower b) (py_lower ''foo; rm -rf /tmp'')"
    by simp
  with chained_rm_rejected [of "[''mkfs'', ''fdisk'']" None]
  have "validate_command ''foo; rm -rf /tmp'' [''mkfs'', ''fdisk''] None
       = (False, Some ''Command contains dangerous pattern'')"
    by blast
  with a b show ?thesis by blast
qed

text \<open>
  C6, as stated, fails at the two guards of the allow-list rule. An empty allow-list is
  treated as none: the command \<open>ls\<close>, whose first word starts with none of its (zero)
  prefixes, is accepted. A command without a word is accepted under any allow-list.
\<close>

theorem allow_list_guards:
  "validate_command ''ls'' [] (Some []) = (True, None)
   \<and> validate_command ''  '' [] (Some [''ls'']) = (True, None)"
  by code_simp

text \<open>
  C6, amended. For every command that passes the blocklist and the dangerous-pattern checks,
  when the allow-list supplied is not empty and the command has a first whitespace-delimited
  word: if that word starts with none of the allowed prefixes, compared without regard to
  case, the command is rejected with the reason that lists the allowed prefixes; so a command
  that is accepted has a first word that starts with one of them.
\<close>

theorem allow_list_rejects:
  assumes "\<forall>b \<in> set blocked. \<not> py_in (py_lower b) (py_lower (py_strip command))"
    and "\<not> list_ex (\<lambda>pattern. re_search pattern (py_strip command)) dangerous_patterns"
    and "prefixes \<noteq> []"
    and "py_split (py_strip command) = first # rest"
  shows "((\<forall>p \<in> set prefixes. \<not> startswith (py_lower first) (py_lower p)) \<longrightarrow>
            validate_command command blocked (Some prefixes)
              = (False, Some (''Command must start with one of: '' @ py_join '', '' prefixes)))
         \<and> (fst (validate_command command blocked (Some prefixes)) \<longrightarrow>
              (\<exists>p \<in> set prefixes. startswith (py_lower first) (py_lower p)))"
proof -
  from assms(1)
  have "find (\<lambda>b. py_in (py_lower b) (py_lower (py_strip command))) blocked = None"
    by (simp add: find_None_iff)
  note eq = validate_command_allow_list [OF this assms(2) assms(3) assms(4)]
  have rejects: "validate_command command blocked (Some prefixes)
              = (False, Some (''Command must start with one of: '' @ py_join '', '' prefixes))"
    if "\<forall>p \<in> set prefixes. \<not> startswith (py_lower first) (py_lower p)"
  proof -
    from that have "\<forall>p \<in> set prefixes. \<not> startswith (py_lower first) p"
      using startswith_py_lower by blast
    then have "\<not> list_ex (\<lambda>prefix. startswith (py_lower first) prefix) prefixes"
      by (simp add: list_ex_iff)
    with eq show ?thesis by simp
  qed
  have accepts: "\<exists>p \<in> set prefixes. startswith (py_lower first) (py_lower p)"
    if "fst (validate_command command blocked (Some prefixes))"
  proof -
    from that eq have "list_ex (\<lambda>prefix. startswith (py_lower first) prefix) prefixes"
      by (simp split: if_splits)
    then obtain p where "p \<in> set prefixes" "startswith (py_lower first) p"
      by (auto simp add: list_ex_iff)
    then show ?thesis using startswith_py_lower by blast
  qed
  from rejects accepts show ?thesis by blast
qed

theorem allow_list_rejects_witness:
  "\<not> py_in (py_lower ''mkfs'') (py_lower (py_strip '' RmDir /tmp/x ''))
   \<and> \<not> list_ex (\<lambda>pattern. re_search pattern (py_strip '' RmDir /tmp/x '')) dangerous_patterns
   \<and> py_split (py_strip '' RmDir /tmp/x '') = [''RmDir'', ''/tmp/x'']
   \<and> \<not> startswith (py_lower ''RmDir'') (py_lower ''ls'')
   \<and> \<not> startswith (py_lower ''RmDir'') (py_lower ''CD'')
   \<and> validate_command '' RmDir /tmp/x '' [''mkfs''] (Some [''ls'', ''CD''])
       = (False, Some ''Command must start with one of: ls, CD'')"
proof -
  have a: "\<not> py_in (py_lower ''mkfs'') (py_lower (py_strip '' RmDir /tmp/x ''))" by code_simp
  have b: "\<not> list_ex (\<lambda>pattern. re_search pattern (py_strip '' RmDir /tmp/x ''))
               dangerous_patterns" by code_simp
  have c: "py_split (py_strip '' RmDir /tmp/x '') = [''RmDir'', ''/tmp/x'']" by code_simp
  have d: "\<not> startswith (py_lower ''RmDir'') (py_lower ''ls'')" by code_simp
  have e: "\<not> startswith (py_lower ''RmDir'') (py_lower ''CD'')" by code_simp
  have j: "py_join '', '' [''ls'', ''CD''] = ''ls, CD''" by simp
  from a have a': "\<forall>b \<in> set [''mkfs'']. \<not> py_in (py_lower b) (py_lower (py_strip '' RmDir /tmp/x ''))"
    by simp
  from d e have e': "\<forall>p \<in> set [''ls'', ''CD'']. \<not> startswith (py_lower ''RmDir'') (py_lower p)"
    by simp
  have ne: "[''ls'', ''CD''] \<noteq> []" by simp
  from allow_list_rejects [OF a' b ne c, THEN conjunct1, THEN mp, OF e']
  have "validate_command '' RmDir /tmp/x '' [''mkfs''] (Some [''ls'', ''CD''])
       = (False, Some ''Command must start with one of: ls, CD'')"
    by (simp only: j append.simps)
  with a b c d e show ?thesis by blast
qed

text \<open>The prefixes themselves are compared as written: only the first word of the command
  is put in lower case, so a prefix with a capital letter matches no command.\<close>

lemma allow_list_prefix_case:
  "validate_command ''ls'' [] (Some [''LS'']) = (False, Some ''Command must start with one of: LS'')"
  by code_simp


section \<open>Properties of the server inventory\<close>

lemmas csv_eval = get_servers_data_def add_server_def del_server_def writerow_def csv_field_def
  HEADER_def parse_process_char_def start_field_def parse_add_char_def parse_save_field_def
  parse_reset_def field_size_limit_def Let_def enumerate_eq_zip

subsection \<open>Reading back what was written\<close>

text \<open>The reader, fed the text of written rows, yields these rows: first for the characters
  of one line, then field by field, row by row, and for the whole file after the translation
  of line ends.\<close>

lemma parse_line_append:
  "parse_line r (xs @ ys) =
     (case parse_chars r xs of Inl e \<Rightarrow> Inl e | Inr r' \<Rightarrow> parse_line r' ys)"
  by (induction xs arbitrary: r) (auto split: sum.splits)

lemma parse_chars_snoc:
  "parse_chars r (xs @ [c]) =
     (case parse_chars r xs of Inl e \<Rightarrow> Inl e | Inr r' \<Rightarrow> parse_process_char r' (Some c))"
  by (induction xs arbitrary: r) (auto split: sum.splits)

lemma read_error:
  "parse_chars r acc = Inl e \<Longrightarrow>
   csv_reader r (read_lines acc (t @ LF # rest)) = ([], Some e)"
proof (induction t arbitrary: acc)
  case Nil
  then show ?case by (simp add: parse_line_append)
next
  case (Cons c t)
  show ?case
  proof (cases "c = LF")
    case True
    with Cons.prems show ?thesis by (simp add: parse_line_append)
  next
    case False
    from Cons.prems have "parse_chars r (acc @ [c]) = Inl e"
      by (simp add: parse_chars_snoc)
    from Cons.IH [OF this] False show ?thesis by simp
  qed
qed

lemma read_sim:
  "parse_chars r acc = Inr r1 \<Longrightarrow>
   csv_reader r (read_lines acc (t @ LF # rest)) = csv_reader r1 (read_lines [] (t @ LF # rest))"
proof (induction t arbitrary: acc r r1)
  case Nil
  then show ?case by (simp add: parse_line_append)
next
  case (Cons c t)
  show ?case
  proof (cases "c = LF")
    case True
    with Cons.prems show ?thesis by (simp add: parse_line_append)
  next
    case False
    show ?thesis
    proof (cases "parse_process_char r1 (Some c)")
      case (Inl e)
      with Cons.prems have a: "parse_chars r (acc @ [c]) = Inl e"
        by (simp add: parse_chars_snoc)
      from Inl have b: "parse_chars r1 ([] @ [c]) = Inl e" by simp
      from read_error [OF a] read_error [OF b] False show ?thesis by simp
    next
      case (Inr r2)
      with Cons.prems have a: "parse_chars r (acc @ [c]) = Inr r2"
        by (simp add: parse_chars_snoc)
      from Inr have b: "parse_chars r1 ([] @ [c]) = Inr r2" by simp
      from Cons.IH [OF a] Cons.IH [OF b] False show ?thesis by simp
    qed
  qed
qed

lemma step_char:
  assumes "c \<noteq> LF" and "parse_process_char r (Some c) = Inr r2"
  shows "csv_reader r (read_lines [] (c # t @ LF # rest)) = csv_reader r2 (read_lines [] (t @ LF # rest))"
proof -
  from assms(2) have "parse_chars r [c] = Inr r2" by simp
  from read_sim [OF this] assms(1) show ?thesis by simp
qed

lemma step_newline:
  assumes "parse_process_char r (Some LF) = Inr r2" and "parse_process_char r2 None = Inr r3"
  shows "csv_reader r (read_lines [] (LF # rest)) =
           (if state r3 \<noteq> START_RECORD then csv_reader r3 (read_lines [] rest)
            else (record_fields r3 # fst (csv_reader parse_reset (read_lines [] rest)),
                  snd (csv_reader parse_reset (read_lines [] rest))))"
  using assms by (simp add: case_prod_unfold Let_def)

lemma csv_field_cases:
  "(list_ex (\<lambda>c. \<not> plain_char c) f \<and> csv_field f = DQUOTE # escape_quotes f @ [DQUOTE])
   \<or> ((\<forall>c \<in> set f. plain_char c) \<and> csv_field f = f)"
  by (auto simp add: csv_field_def plain_char_def escape_quotes_def list_ex_iff)

lemma plain_in_field:
  assumes "\<forall>c \<in> set f. plain_char c"
    and "length (field r) + length f \<le> field_size_limit"
    and "state r = IN_FIELD"
  shows "csv_reader r (read_lines [] (f @ t @ LF # rest))
           = csv_reader (r\<lparr>field := field r @ f\<rparr>) (read_lines [] (t @ LF # rest))"
  using assms
proof (induction f arbitrary: r)
  case Nil
  then show ?case by simp
next
  case (Cons c f)
  let ?r2 = "r\<lparr>field := field r @ [c]\<rparr>"
  from Cons.prems have c: "plain_char c" and lt: "length (field r) < field_size_limit"
    by simp_all
  with Cons.prems(3) have step: "parse_process_char r (Some c) = Inr ?r2"
    by (simp add: parse_process_char_def parse_add_char_def plain_char_def)
  from c have "c \<noteq> LF" by (simp add: plain_char_def)
  from step_char [OF this step, of "f @ t" rest]
  have "csv_reader r (read_lines [] ((c # f) @ t @ LF # rest))
          = csv_reader ?r2 (read_lines [] (f @ t @ LF # rest))" by simp
  also have "\<dots> = csv_reader (?r2\<lparr>field := field ?r2 @ f\<rparr>) (read_lines [] (t @ LF # rest))"
    using Cons.prems by (intro Cons.IH) simp_all
  finally show ?case by simp
qed

lemma quoted_in_field:
  assumes "CR \<notin> set f"
    and "length (field r) + length f \<le> field_size_limit"
    and "state r = IN_QUOTED_FIELD"
  shows "csv_reader r (read_lines [] (escape_quotes f @ t @ LF # rest))
           = csv_reader (r\<lparr>field := field r @ f\<rparr>) (read_lines [] (t @ LF # rest))"
  using assms
proof (induction f arbitrary: r)
  case Nil
  then show ?case by (simp add: escape_quotes_def)
next
  case (Cons c f)
  let ?r2 = "r\<lparr>field := field r @ [c]\<rparr>"
  from Cons.prems have lt: "length (field r) < field_size_limit" and ncr: "c \<noteq> CR"
    by auto
  have head: "csv_reader r (read_lines [] (escape_quotes (c # f) @ t @ LF # rest))
          = csv_reader ?r2 (read_lines [] (escape_quotes f @ t @ LF # rest))"
  proof (cases "c = DQUOTE")
    case True
    let ?q = "r\<lparr>state := QUOTE_IN_QUOTED_FIELD\<rparr>"
    from Cons.prems(3) True have s1: "parse_process_char r (Some DQUOTE) = Inr ?q"
      by (simp add: parse_process_char_def)
    from lt Cons.prems(3) True have s2: "parse_process_char ?q (Some DQUOTE) = Inr ?r2"
      by (simp add: parse_process_char_def parse_add_char_def)
    have "csv_reader r (read_lines [] (DQUOTE # (DQUOTE # escape_quotes f @ t) @ LF # rest))
            = csv_reader ?q (read_lines [] ((DQUOTE # escape_quotes f @ t) @ LF # rest))"
      by (rule step_char [OF _ s1]) simp
    also have "\<dots> = csv_reader ?r2 (read_lines [] ((escape_quotes f @ t) @ LF # rest))"
      using step_char [OF _ s2, of "escape_quotes f @ t" rest] by simp
    finally show ?thesis using True by (simp add: escape_quotes_def)
  next
    case False
    note nq = False
    from lt Cons.prems(3) nq have s: "parse_process_char r (Some c) = Inr ?r2"
      by (simp add: parse_process_char_def parse_add_char_def)
    show ?thesis
    proof (cases "c = LF")
      case True
      from Cons.prems(3) have e: "parse_process_char ?r2 None = Inr ?r2"
        by (simp add: parse_process_char_def)
      from s True have s': "parse_process_char r (Some LF) = Inr ?r2" by simp
      from step_newline [OF s' e, of "escape_quotes f @ t @ LF # rest"] Cons.prems(3) True nq
      show ?thesis by (simp add: escape_quotes_def)
    next
      case False
      from step_char [OF False s, of "escape_quotes f @ t" rest] nq
      show ?thesis by (simp add: escape_quotes_def)
    qed
  qed
  also have "\<dots> = csv_reader (?r2\<lparr>field := field ?r2 @ f\<rparr>) (read_lines [] (t @ LF # rest))"
    using Cons.prems by (intro Cons.IH) simp_all
  finally show ?case by simp
qed

lemma read_field:
  assumes "state r = START_FIELD" and "field r = []"
    and "CR \<notin> set f" and "length f \<le> field_size_limit"
  shows "\<exists>r'. csv_reader r (read_lines [] (csv_field f @ t @ LF # rest))
                = csv_reader r' (read_lines [] (t @ LF # rest))
              \<and> field_read r' f (record_fields r)"
proof -
  from csv_field_cases [of f] show ?thesis
  proof (elim disjE conjE)
    assume enc: "csv_field f = DQUOTE # escape_quotes f @ [DQUOTE]"
    let ?q = "r\<lparr>state := IN_QUOTED_FIELD\<rparr>"
    let ?q2 = "?q\<lparr>field := field ?q @ f\<rparr>"
    let ?r' = "?q2\<lparr>state := QUOTE_IN_QUOTED_FIELD\<rparr>"
    from assms(1) have s1: "parse_process_char r (Some DQUOTE) = Inr ?q"
      by (simp add: parse_process_char_def start_field_def)
    have s2: "parse_process_char ?q2 (Some DQUOTE) = Inr ?r'"
      by (simp add: parse_process_char_def)
    have "csv_reader r (read_lines [] (DQUOTE # (escape_quotes f @ DQUOTE # t) @ LF # rest))
            = csv_reader ?q (read_lines [] ((escape_quotes f @ DQUOTE # t) @ LF # rest))"
      by (rule step_char [OF _ s1]) simp
    also have "\<dots> = csv_reader ?q2 (read_lines [] ((DQUOTE # t) @ LF # rest))"
      using quoted_in_field [of f ?q "DQUOTE # t" rest] assms by simp
    also have "\<dots> = csv_reader ?r' (read_lines [] (t @ LF # rest))"
      using step_char [OF _ s2, of t rest] by simp
    finally have "csv_reader r (read_lines [] (csv_field f @ t @ LF # rest))
                = csv_reader ?r' (read_lines [] (t @ LF # rest))"
      by (simp add: enc)
    moreover have "field_read ?r' f (record_fields r)"
      using assms by (simp add: field_read_def)
    ultimately show ?thesis by blast
  next
    assume pl: "\<forall>c \<in> set f. plain_char c" and enc: "csv_field f = f"
    show ?thesis
    proof (cases f)
      case Nil
      with assms enc have "field_read r f (record_fields r)" by (simp add: field_read_def)
      with Nil enc show ?thesis by auto
    next
      case (Cons c f')
      let ?q = "r\<lparr>field := [c], state := IN_FIELD\<rparr>"
      let ?r' = "?q\<lparr>field := field ?q @ f'\<rparr>"
      from pl Cons have c: "plain_char c" by simp
      with assms(1,2) have s1: "parse_process_char r (Some c) = Inr ?q"
        by (simp add: parse_process_char_def start_field_def parse_add_char_def plain_char_def
            field_size_limit_def)
      from c have "c \<noteq> LF" by (simp add: plain_char_def)
      from step_char [OF this s1, of "f' @ t" rest]
      have "csv_reader r (read_lines [] (c # (f' @ t) @ LF # rest))
              = csv_reader ?q (read_lines [] (f' @ t @ LF # rest))" by simp
      also have "\<dots> = csv_reader ?r' (read_lines [] (t @ LF # rest))"
        using plain_in_field [of f' ?q t rest] pl Cons assms(4) by simp
      finally have "csv_reader r (read_lines [] (csv_field f @ t @ LF # rest))
                = csv_reader ?r' (read_lines [] (t @ LF # rest))"
        using enc Cons by simp
      moreover have "field_read ?r' f (record_fields r)"
        using Cons by (simp add: field_read_def)
      ultimately show ?thesis by blast
    qed
  qed
qed

lemma read_comma:
  assumes "field_read r f fs"
  shows "csv_reader r (read_lines [] (COMMA # t @ LF # rest))
           = csv_reader \<lparr>state = START_FIELD, field = [], record_fields = fs @ [f]\<rparr>
               (read_lines [] (t @ LF # rest))"
proof -
  from assms have "parse_process_char r (Some COMMA)
      = Inr \<lparr>state = START_FIELD, field = [], record_fields = fs @ [f]\<rparr>"
    by (auto simp add: field_read_def parse_process_char_def start_field_def
        parse_save_field_def)
  from step_char [OF _ this, of t rest] show ?thesis by simp
qed

lemma read_row_end:
  assumes "field_read r f fs"
  shows "csv_reader r (read_lines [] (LF # rest))
           = ((fs @ [f]) # fst (csv_reader parse_reset (read_lines [] rest)),
              snd (csv_reader parse_reset (read_lines [] rest)))"
proof -
  let ?r2 = "\<lparr>state = EAT_CRNL, field = [], record_fields = fs @ [f]\<rparr>"
  let ?r3 = "\<lparr>state = START_RECORD, field = [], record_fields = fs @ [f]\<rparr>"
  from assms have s1: "parse_process_char r (Some LF) = Inr ?r2"
    by (auto simp add: field_read_def parse_process_char_def start_field_def
        parse_save_field_def)
  have s2: "parse_process_char ?r2 None = Inr ?r3"
    by (simp add: parse_process_char_def)
  from step_newline [OF s1 s2, of rest] show ?thesis by simp
qed

lemma read_fields:
  assumes "state r = START_FIELD" and "field r = []"
    and "\<forall>x \<in> set (f # others). CR \<notin> set x \<and> length x \<le> field_size_limit"
  shows "csv_reader r (read_lines [] (py_join [COMMA] (map csv_field (f # others)) @ LF # rest))
           = ((record_fields r @ f # others)
                # fst (csv_reader parse_reset (read_lines [] rest)),
              snd (csv_reader parse_reset (read_lines [] rest)))"
  using assms
proof (induction others arbitrary: r f)
  case Nil
  from read_field [of r f "[]" rest] Nil.prems
  obtain r' where "csv_reader r (read_lines [] (csv_field f @ LF # rest))
                = csv_reader r' (read_lines [] (LF # rest))"
    and "field_read r' f (record_fields r)" by auto
  with read_row_end [of r' f "record_fields r" rest] show ?case by simp
next
  case (Cons g others)
  let ?tail = "py_join [COMMA] (map csv_field (g # others))"
  from read_field [of r f "COMMA # ?tail" rest] Cons.prems
  obtain r' where a: "csv_reader r (read_lines [] (csv_field f @ (COMMA # ?tail) @ LF # rest))
                = csv_reader r' (read_lines [] ((COMMA # ?tail) @ LF # rest))"
    and b: "field_read r' f (record_fields r)" by auto
  let ?n = "\<lparr>state = START_FIELD, field = [], record_fields = record_fields r @ [f]\<rparr>"
  from read_comma [OF b, of ?tail rest]
  have c: "csv_reader r' (read_lines [] ((COMMA # ?tail) @ LF # rest))
           = csv_reader ?n (read_lines [] (?tail @ LF # rest))" by simp
  have "csv_reader ?n (read_lines [] (?tail @ LF # rest))
          = ((record_fields ?n @ g # others)
                # fst (csv_reader parse_reset (read_lines [] rest)),
              snd (csv_reader parse_reset (read_lines [] rest)))"
    using Cons.prems by (intro Cons.IH) simp_all
  with a c show ?case by simp
qed

lemma start_record_as_start_field:
  assumes "state r = START_RECORD" and "c \<noteq> LF" and "c \<noteq> CR"
  shows "parse_process_char r (Some c) = parse_process_char (r\<lparr>state := START_FIELD\<rparr>) (Some c)"
  using assms
  by (simp add: parse_process_char_def start_field_def parse_save_field_def parse_add_char_def
      map_sum_def split: sum.split)

lemma same_first_step:
  assumes "parse_process_char r (Some c) = parse_process_char r' (Some c)" and "c \<noteq> LF"
  shows "csv_reader r (read_lines [] (c # t @ LF # rest))
           = csv_reader r' (read_lines [] (c # t @ LF # rest))"
proof (cases "parse_process_char r (Some c)")
  case (Inl e)
  then have a: "parse_chars r [c] = Inl e" by simp
  from Inl assms(1) have b: "parse_chars r' [c] = Inl e" by simp
  from read_error [OF a, of t rest] read_error [OF b, of t rest] assms(2) show ?thesis by simp
next
  case (Inr r2)
  with assms(1) have "parse_process_char r' (Some c) = Inr r2" by simp
  from step_char [OF assms(2) Inr, of t rest] step_char [OF assms(2) this, of t rest]
  show ?thesis by simp
qed

lemma csv_field_head:
  assumes "csv_field f = c # cs"
  shows "c \<noteq> LF \<and> c \<noteq> CR"
proof -
  from csv_field_cases [of f] show ?thesis
  proof (elim disjE conjE)
    assume "csv_field f = DQUOTE # escape_quotes f @ [DQUOTE]"
    with assms have "c = DQUOTE" by simp
    then show ?thesis by simp
  next
    assume pl: "\<forall>c \<in> set f. plain_char c" and "csv_field f = f"
    with assms have "f = c # cs" by simp
    with pl have "plain_char c" by simp
    then show ?thesis by (simp add: plain_char_def)
  qed
qed

lemma row_text_head:
  assumes "length row \<ge> 2" and "\<forall>x \<in> set row. CR \<notin> set x"
  shows "\<exists>c cs. row_text row = c # cs \<and> c \<noteq> LF \<and> c \<noteq> CR"
proof -
  from assms(1) obtain f g others where row: "row = f # g # others"
    by (cases row; cases "tl row") auto
  show ?thesis
  proof (cases "csv_field f")
    case Nil
    with row show ?thesis by (simp add: row_text_def)
  next
    case (Cons c cs)
    from csv_field_head [OF Cons] have "c \<noteq> LF \<and> c \<noteq> CR" .
    with Cons row show ?thesis by (simp add: row_text_def)
  qed
qed

lemma read_row_text:
  assumes "written_row row"
  shows "csv_reader parse_reset (read_lines [] (row_text row @ LF # rest))
           = (row # fst (csv_reader parse_reset (read_lines [] rest)),
              snd (csv_reader parse_reset (read_lines [] rest)))"
proof -
  from assms obtain f others where row: "row = f # others"
    by (cases row) (auto simp add: written_row_def)
  from assms row_text_head [of row] obtain c cs
    where rtx: "row_text row = c # cs" and cne: "c \<noteq> LF" "c \<noteq> CR"
    by (auto simp add: written_row_def)
  let ?r = "parse_reset\<lparr>state := START_FIELD\<rparr>"
  have "parse_process_char parse_reset (Some c) = parse_process_char ?r (Some c)"
    by (rule start_record_as_start_field) (simp_all add: parse_reset_def cne)
  from same_first_step [OF this cne(1), of cs rest]
  have "csv_reader parse_reset (read_lines [] (row_text row @ LF # rest))
          = csv_reader ?r (read_lines [] (row_text row @ LF # rest))"
    by (simp add: rtx)
  also have "\<dots> = ((record_fields ?r @ f # others)
                # fst (csv_reader parse_reset (read_lines [] rest)),
              snd (csv_reader parse_reset (read_lines [] rest)))"
    unfolding row_text_def row
    using assms row by (intro read_fields) (simp_all add: parse_reset_def written_row_def)
  finally show ?thesis by (simp add: row parse_reset_def)
qed

lemma read_row_texts:
  assumes "\<forall>row \<in> set rows. written_row row"
  shows "csv_reader parse_reset
           (read_lines [] (concat (map (\<lambda>row. row_text row @ [LF]) rows))) = (rows, None)"
  using assms
proof (induction rows)
  case Nil
  then show ?case by (simp add: parse_reset_def)
next
  case (Cons row rows)
  from Cons.prems have w: "written_row row" and ws: "\<forall>row \<in> set rows. written_row row"
    by simp_all
  have "concat (map (\<lambda>row. row_text row @ [LF]) (row # rows))
          = row_text row @ LF # concat (map (\<lambda>row. row_text row @ [LF]) rows)"
    by simp
  then show ?case
    by (simp only: read_row_text [OF w] Cons.IH [OF ws] fst_conv snd_conv)
qed

lemma universal_newlines_Cons:
  "c \<noteq> CR \<Longrightarrow> universal_newlines (c # zs) = c # universal_newlines zs"
  by (cases zs) simp_all

lemma universal_newlines_prefix:
  "CR \<notin> set xs \<Longrightarrow> universal_newlines (xs @ ys) = xs @ universal_newlines ys"
proof (induction xs)
  case Nil
  then show ?case by simp
next
  case (Cons c xs)
  then have "c \<noteq> CR" by auto
  from universal_newlines_Cons [OF this, of "xs @ ys"] Cons show ?case by simp
qed

lemma set_csv_field: "set (csv_field f) \<subseteq> insert DQUOTE (set f)"
  by (auto simp add: csv_field_def split: if_splits)

lemma set_py_join: "set (py_join sep xs) \<subseteq> set sep \<union> \<Union> (set ` set xs)"
  by (induction sep xs rule: py_join.induct) auto

lemma row_text_no_cr:
  assumes "\<forall>x \<in> set row. CR \<notin> set x"
  shows "CR \<notin> set (row_text row)"
proof
  assume "CR \<in> set (row_text row)"
  with set_py_join [of "[COMMA]" "map csv_field row"]
  have "CR \<in> set [COMMA] \<union> \<Union> (set ` set (map csv_field row))"
    unfolding row_text_def by blast
  then obtain x where "x \<in> set row" "CR \<in> set (csv_field x)" by auto
  with set_csv_field [of x] have "CR \<in> set x" by auto
  with assms \<open>x \<in> set row\<close> show False by blast
qed

lemma writerow_written:
  assumes "written_row row"
  shows "writerow row = row_text row @ [CR, LF]"
proof -
  from assms row_text_head [of row] have "row_text row \<noteq> []"
    by (auto simp add: written_row_def)
  then show ?thesis by (simp add: writerow_def row_text_def Let_def)
qed

lemma universal_newlines_written:
  assumes "\<forall>row \<in> set rows. written_row row"
  shows "universal_newlines (concat (map writerow rows))
           = concat (map (\<lambda>row. row_text row @ [LF]) rows)"
  using assms
proof (induction rows)
  case Nil
  then show ?case by simp
next
  case (Cons row rows)
  from Cons.prems have w: "written_row row" by simp
  then have ncr: "CR \<notin> set (row_text row)"
    by (intro row_text_no_cr) (simp add: written_row_def)
  have "universal_newlines (concat (map writerow (row # rows)))
          = universal_newlines (row_text row @ CR # LF # concat (map writerow rows))"
    by (simp add: writerow_written [OF w])
  also have "\<dots> = row_text row @ universal_newlines (CR # LF # concat (map writerow rows))"
    by (rule universal_newlines_prefix [OF ncr])
  also have "\<dots> = row_text row @ LF # universal_newlines (concat (map writerow rows))"
    by simp
  finally show ?case using Cons.IH Cons.prems by simp
qed

lemma read_written_rows:
  assumes "\<forall>row \<in> set rows. written_row row"
  shows "csv_reader parse_reset
           (read_lines [] (universal_newlines (concat (map writerow rows)))) = (rows, None)"
  by (simp only: universal_newlines_written [OF assms] read_row_texts [OF assms])

lemma enumerate_from_Suc:
  "map snd (filter (\<lambda>(line_count, row). line_count > 0 \<and> P row) (enumerate (Suc n) rows))
     = filter P rows"
  by (induction rows arbitrary: n) simp_all

lemma enumerate_skip_header:
  "map snd (filter (\<lambda>(line_count, row). line_count > 0 \<and> P row) (enumerate 0 rows))
     = filter P (tl rows)"
proof (cases rows)
  case Nil
  then show ?thesis by simp
next
  case (Cons row rest)
  have "enumerate 0 (row # rest) = (0, row) # enumerate (Suc 0) rest" by simp
  with Cons show ?thesis by (simp only: enumerate_from_Suc) (simp add: enumerate_from_Suc)
qed

lemma get_servers_data_written:
  assumes "\<forall>row \<in> set rows. written_row row"
  shows "get_servers_data Opened (Some (concat (map writerow rows)))
           = filter (\<lambda>row. length row \<ge> 3) (tl rows)"
  by (simp add: get_servers_data_def read_written_rows [OF assms] enumerate_skip_header)

lemma written_row_HEADER: "written_row HEADER"
  by (simp add: written_row_def HEADER_def field_size_limit_def)



lemma del_server_in_range:
  assumes "written_file file"
    and "1 \<le> server_number"
    and "server_number \<le> int (length (get_servers_data Opened file))"
  shows "fst (del_server Opened Opened server_number file)
         \<and> get_servers_data Opened (snd (del_server Opened Opened server_number file))
            = take (nat (server_number - 1)) (get_servers_data Opened file)
                @ drop (nat server_number) (get_servers_data Opened file)
         \<and> written_file (snd (del_server Opened Opened server_number file))"
proof -
  let ?old = "get_servers_data Opened file"
  let ?servers = "take (nat (server_number - 1)) ?old @ drop (nat server_number) ?old"
  from assms(2,3) have "?old \<noteq> []" by auto
  then have "file \<noteq> None" by (cases "file") (simp_all add: get_servers_data_def)
  with assms(1) obtain rows where ws: "\<forall>row \<in> set rows. written_row row"
    and some: "file = Some (concat (map writerow rows))"
    by (auto simp add: written_file_def)
  have old: "?old = filter (\<lambda>row. length row \<ge> 3) (tl rows)"
    by (simp only: some get_servers_data_written [OF ws])
  have sub: "set ?servers \<subseteq> set ?old"
    using set_take_subset [of "nat (server_number - 1)" ?old]
      set_drop_subset [of "nat server_number" ?old] by auto
  have "set ?old \<subseteq> set rows"
    unfolding old by (cases rows) auto
  with sub ws have all: "\<forall>row \<in> set (HEADER # ?servers). written_row row"
    using written_row_HEADER by auto
  from sub old have long: "\<forall>row \<in> set ?servers. length row \<ge> 3" by auto
  have after: "del_server Opened Opened server_number file
                 = (True, Some (concat (map writerow (HEADER # ?servers))))"
    using assms(2,3) \<open>file \<noteq> None\<close> by (simp add: del_server_def Let_def)
  have "get_servers_data Opened (Some (concat (map writerow (HEADER # ?servers))))
          = filter (\<lambda>row. length row \<ge> 3) ?servers"
    by (simp only: get_servers_data_written [OF all] list.sel)
  also have "\<dots> = ?servers" using long by (intro filter_True) blast
  finally have listed:
    "get_servers_data Opened (Some (concat (map writerow (HEADER # ?servers)))) = ?servers" .
  have "written_file (Some (concat (map writerow (HEADER # ?servers))))"
    unfolding written_file_def using all by blast
  with listed show ?thesis by (simp only: after fst_conv snd_conv simp_thms)
qed

subsection \<open>Scenarios and claims\<close>

text \<open>The end-to-end scenario of the specification: adding a server when there is no
  file creates the file with the header and the record, the listing is that record, and
  deleting position 1 leaves the header alone and an empty listing.\<close>

lemma add_then_list_example:
  "add_server Opened ''10.0.0.5'' ''bob'' ''pw'' ''admin1'' ''2024-01-01 00:00:00'' None
     = (True, Some (''SERVER_IP,LOGIN_USERNAME,LOGIN_PASSWORD,ADDED_BY,DATE_ADDED'' @ [CR, LF]
                    @ ''10.0.0.5,bob,pw,admin1,2024-01-01 00:00:00'' @ [CR, LF]))"
  "get_servers_data Opened
     (Some (''SERVER_IP,LOGIN_USERNAME,LOGIN_PASSWORD,ADDED_BY,DATE_ADDED'' @ [CR, LF]
            @ ''10.0.0.5,bob,pw,admin1,2024-01-01 00:00:00'' @ [CR, LF]))
     = [[''10.0.0.5'', ''bob'', ''pw'', ''admin1'', ''2024-01-01 00:00:00'']]"
  by (simp_all add: csv_eval)

lemma delete_then_list_example:
  "del_server Opened Opened 1
     (Some (''SERVER_IP,LOGIN_USERNAME,LOGIN_PASSWORD,ADDED_BY,DATE_ADDED'' @ [CR, LF]
            @ ''10.0.0.5,bob,pw,admin1,2024-01-01 00:00:00'' @ [CR, LF]))
     = (True, Some (''SERVER_IP,LOGIN_USERNAME,LOGIN_PASSWORD,ADDED_BY,DATE_ADDED'' @ [CR, LF]))"
  "get_servers_data Opened
     (Some (''SERVER_IP,LOGIN_USERNAME,LOGIN_PASSWORD,ADDED_BY,DATE_ADDED'' @ [CR, LF])) = []"
  by (simp_all add: csv_eval)

lemma get_servers_data_open_raises: "get_servers_data OpenRaises file = []"
  by (simp add: get_servers_data_def split: option.split)



text \<open>
  C9. For every state of the file, with \<open>count\<close> the number of records listed, and every
  integer position below 1 or above \<open>count\<close>, \<open>del_server\<close> returns \<open>False\<close> and the file
  is what it was, so the listing after the call is the listing before it.
\<close>

theorem del_server_out_of_range:
  assumes "server_number < 1 \<or> server_number > int (length (get_servers_data Opened file))"
  shows "del_server opened_read opened_write server_number file = (False, file)
         \<and> get_servers_data Opened
              (snd (del_server opened_read opened_write server_number file))
            = get_servers_data Opened file"
proof -
  have "server_number < 1
        \<or> server_number > int (length (get_servers_data opened_read file))"
  proof (cases opened_read)
    case Opened
    with assms show ?thesis by simp
  next
    case OpenRaises
    then show ?thesis by (simp add: get_servers_data_open_raises) linarith
  qed
  then have "del_server opened_read opened_write server_number file = (False, file)"
    by (auto simp add: del_server_def Let_def)
  then show ?thesis by simp
qed

theorem del_server_out_of_range_witness:
  "length (get_servers_data Opened
     (Some (''SERVER_IP,LOGIN_USERNAME,LOGIN_PASSWORD,ADDED_BY,DATE_ADDED'' @ [CR, LF]
            @ ''10.0.0.5,bob,pw,admin1,2024-01-01 00:00:00'' @ [CR, LF]))) = 1
   \<and> del_server Opened Opened 2
     (Some (''SERVER_IP,LOGIN_USERNAME,LOGIN_PASSWORD,ADDED_BY,DATE_ADDED'' @ [CR, LF]
            @ ''10.0.0.5,bob,pw,admin1,2024-01-01 00:00:00'' @ [CR, LF]))
     = (False,
        Some (''SERVER_IP,LOGIN_USERNAME,LOGIN_PASSWORD,ADDED_BY,DATE_ADDED'' @ [CR, LF]
            @ ''10.0.0.5,bob,pw,admin1,2024-01-01 00:00:00'' @ [CR, LF]))
   \<and> del_server Opened Opened 0
     (Some (''SERVER_IP,LOGIN_USERNAME,LOGIN_PASSWORD,ADDED_BY,DATE_ADDED'' @ [CR, LF]
            @ ''10.0.0.5,bob,pw,admin1,2024-01-01 00:00:00'' @ [CR, LF]))
     = (False,
        Some (''SERVER_IP,LOGIN_USERNAME,LOGIN_PASSWORD,ADDED_BY,DATE_ADDED'' @ [CR, LF]
            @ ''10.0.0.5,bob,pw,admin1,2024-01-01 00:00:00'' @ [CR, LF]))"
proof -
  let ?file = "Some (''SERVER_IP,LOGIN_USERNAME,LOGIN_PASSWORD,ADDED_BY,DATE_ADDED'' @ [CR, LF]
            @ ''10.0.0.5,bob,pw,admin1,2024-01-01 00:00:00'' @ [CR, LF])"
  have count: "length (get_servers_data Opened ?file) = 1"
    by (simp only: add_then_list_example(2)) simp
  then have above: "(2::int) < 1 \<or> 2 > int (length (get_servers_data Opened ?file))"
    by simp
  have below: "(0::int) < 1 \<or> 0 > int (length (get_servers_data Opened ?file))"
    by simp
  from del_server_out_of_range [OF above, of Opened Opened]
       del_server_out_of_range [OF below, of Opened Opened] count
  show ?thesis by blast
qed

text \<open>
  The read path, for a field the program never passes: adding a server whose username ends
  in a carriage return, when there is no file, writes the username between quotes with the
  carriage return in it, since the file is opened with \<open>newline=''\<close>. \<open>get_servers_data\<close>
  opens the file without it, the carriage return reaches the reader as a line feed, and the
  username listed ends in a line feed.
\<close>

lemma add_server_carriage_return:
  "add_server Opened ''10.0.0.5'' (''bob'' @ [CR]) ''pw'' ''admin1'' ''2024-01-01 00:00:00'' None
     = (True, Some (''SERVER_IP,LOGIN_USERNAME,LOGIN_PASSWORD,ADDED_BY,DATE_ADDED'' @ [CR, LF]
                    @ ''10.0.0.5,'' @ [DQUOTE] @ ''bob'' @ [CR, DQUOTE]
                    @ '',pw,admin1,2024-01-01 00:00:00'' @ [CR, LF]))
   \<and> get_servers_data Opened
        (snd (add_server Opened ''10.0.0.5'' (''bob'' @ [CR]) ''pw'' ''admin1''
                ''2024-01-01 00:00:00'' None))
     = [[''10.0.0.5'', ''bob'' @ [LF], ''pw'', ''admin1'', ''2024-01-01 00:00:00'']]"
  by (simp add: csv_eval)

text \<open>A file that exists and is empty gets no header, and the record added to it is read as
  the header line.\<close>

lemma add_server_empty_file:
  "get_servers_data Opened
     (snd (add_server Opened ''10.0.0.5'' ''bob'' ''pw'' ''admin1'' ''2024-01-01 00:00:00''
             (Some []))) = []"
  by (simp add: csv_eval)


end
